theory Spec2Isabelle
  imports Main "HOL-Library.AList" "HOL-Library.Char_ord" "HOL-Library.List_Lexorder"
begin

section \<open>Text\<close>

text \<open>
  The script \<^verbatim>\<open>scripts/generate-clusterapp-block-diagram.py\<close> works on Python
  \<^verbatim>\<open>str\<close> values, sequences of code points. The text it reads (identifiers and
  dependency annotations) is modelled as \<^typ>\<open>string\<close>: one \<^typ>\<open>char\<close> per code
  point, which covers the code points below 256. In that range the regular expression
  class \<^verbatim>\<open>\d\<close> is exactly the ten digits \<^verbatim>\<open>0\<close> to \<^verbatim>\<open>9\<close>, and
  \<^verbatim>\<open>str.strip()\<close> removes exactly the twelve code points of \<open>is_space\<close>.
  The text it writes holds box-drawing code points above 255, so it is a list of code
  points (\<open>ustr\<close>), and \<open>length\<close> on it is Python's \<^verbatim>\<open>len\<close>.
\<close>

definition newline :: char where
  "newline = CHR 0x0A"

definition is_digit :: "char \<Rightarrow> bool" where
  "is_digit c \<longleftrightarrow> c \<in> set ''0123456789''"

definition is_space :: "char \<Rightarrow> bool" where
  "is_space c \<longleftrightarrow> c \<in> set [CHR 0x09, CHR 0x0A, CHR 0x0B, CHR 0x0C, CHR 0x0D,
     CHR 0x1C, CHR 0x1D, CHR 0x1E, CHR 0x1F, CHR 0x20, CHR 0x85, CHR 0xA0]"

text \<open>\<^verbatim>\<open>s.strip()\<close>\<close>

definition strip :: "string \<Rightarrow> string" where
  "strip s = rev (dropWhile is_space (rev (dropWhile is_space s)))"

text \<open>\<^verbatim>\<open>s.split(c)\<close> for a one-character separator: always at least one part.\<close>

fun split_on :: "char \<Rightarrow> string \<Rightarrow> string list" where
  "split_on c [] = [[]]"
| "split_on c (x # xs) =
     (if x = c then [] # split_on c xs
      else (case split_on c xs of p # ps \<Rightarrow> (x # p) # ps | [] \<Rightarrow> [[x]]))"

section \<open>Name normalizer: \<^verbatim>\<open>get_base_name\<close>\<close>

text \<open>
  \<^verbatim>\<open>re.sub(r'-\d+\.\d+\.\d+.*$', '', app_name)\<close>.

  \<open>version_match s\<close> says that the pattern matches at the start of \<open>s\<close>. The first two
  digit groups are followed by a literal dot, so each is the whole run of digits; the third
  needs one digit. \<^verbatim>\<open>.\<close> matches every code point but the line feed, and
  \<^verbatim>\<open>$\<close> matches at the end of the string and before a line feed that ends the string;
  so \<^verbatim>\<open>.*$\<close> matches exactly when no line feed occurs before the last position
  (\<open>rest_of_line\<close>).
\<close>

definition rest_of_line :: "string \<Rightarrow> bool" where
  "rest_of_line s \<longleftrightarrow> newline \<notin> set (butlast s)"

definition version_match :: "string \<Rightarrow> bool" where
  "version_match s =
     (case s of
        [] \<Rightarrow> False
      | c # r0 \<Rightarrow> c = CHR ''-'' \<and> takeWhile is_digit r0 \<noteq> [] \<and>
          (case dropWhile is_digit r0 of
             [] \<Rightarrow> False
           | d # r1 \<Rightarrow> d = CHR ''.'' \<and> takeWhile is_digit r1 \<noteq> [] \<and>
               (case dropWhile is_digit r1 of
                  [] \<Rightarrow> False
                | e # r2 \<Rightarrow> e = CHR ''.'' \<and> takeWhile is_digit r2 \<noteq> [] \<and> rest_of_line r2)))"

text \<open>
  \<^verbatim>\<open>re.sub\<close> copies the text up to the leftmost position where the pattern matches and
  drops the match. The match runs to the end of the string, or to the line feed that ends
  the string, which is then kept; nothing after it can match again.
\<close>

fun get_base_name :: "string \<Rightarrow> string" where
  "get_base_name [] = []"
| "get_base_name (c # cs) =
     (if version_match (c # cs)
      then (if last (c # cs) = newline then [newline] else [])
      else c # get_base_name cs)"

text \<open>
  The specification's wording of the pattern, for comparison with \<open>version_match\<close>: a dash,
  digits, a dot, digits, a dot, digits, then any trailing characters.
\<close>

definition spec_version_suffix :: "string \<Rightarrow> bool" where
  "spec_version_suffix t \<longleftrightarrow>
     (\<exists>d1 d2 d3 trailing.
        t = ''-'' @ d1 @ ''.'' @ d2 @ ''.'' @ d3 @ trailing \<and>
        d1 \<noteq> [] \<and> d2 \<noteq> [] \<and> d3 \<noteq> [] \<and>
        (\<forall>c \<in> set (d1 @ d2 @ d3). is_digit c))"

section \<open>Dependency parser: \<^verbatim>\<open>parse_clusterapps\<close>\<close>

text \<open>
  A Python \<^verbatim>\<open>dict\<close> keeps its keys in the order of their first insertion, and the
  parser scans \<^verbatim>\<open>apps.keys()\<close> in that order: a dict is an association list,
  written with \<^const>\<open>AList.update\<close> (a new key goes to the end, an old key keeps its
  place) and read with \<^const>\<open>map_of\<close>. \<^verbatim>\<open>dependents\<close> is a
  \<^verbatim>\<open>defaultdict(set)\<close> until the last line of the function sorts each set.
\<close>

type_synonym apps = "(string \<times> string list) list"
type_synonym dependent_sets = "(string \<times> string set) list"
type_synonym dependents = "(string \<times> string list) list"

text \<open>Line 56: \<^verbatim>\<open>base_name == dep or existing_app == dep\<close>.\<close>

definition matches :: "string \<Rightarrow> string \<Rightarrow> bool" where
  "matches dep existing_app \<longleftrightarrow> get_base_name existing_app = dep \<or> existing_app = dep"

text \<open>Reading \<^verbatim>\<open>dependents[k]\<close> in the \<^verbatim>\<open>defaultdict(set)\<close>: a missing key reads as the empty set.\<close>

definition dependent_set :: "dependent_sets \<Rightarrow> string \<Rightarrow> string set" where
  "dependent_set dependents k = (case map_of dependents k of None \<Rightarrow> {} | Some v \<Rightarrow> v)"

text \<open>Line 57: \<^verbatim>\<open>dependents[existing_app].add(app_name)\<close>.\<close>

definition add_dependent :: "string \<Rightarrow> string \<Rightarrow> dependent_sets \<Rightarrow> dependent_sets" where
  "add_dependent existing_app app_name dependents =
     AList.update existing_app (insert app_name (dependent_set dependents existing_app))
       dependents"

text \<open>Lines 54 to 58: the scan over \<^verbatim>\<open>apps.keys()\<close> that stops at the first match.\<close>

definition resolve_dep :: "apps \<Rightarrow> string \<Rightarrow> dependent_sets \<Rightarrow> string \<Rightarrow> dependent_sets" where
  "resolve_dep apps app_name dependents dep =
     (case find (matches dep) (map fst apps) of
        None \<Rightarrow> dependents
      | Some existing_app \<Rightarrow> add_dependent existing_app app_name dependents)"

text \<open>Lines 36 to 58: the body of the loop over the lines of the file.\<close>

fun parse_line :: "apps \<times> dependent_sets \<Rightarrow> string \<Rightarrow> apps \<times> dependent_sets" where
  "parse_line (apps, dependents) raw_line =
     (let line = strip raw_line in
      if line = [] then (apps, dependents)
      else
        let parts = split_on CHR ''|'' line in
        if length parts < 2 then (apps, dependents)
        else
          let app_name = strip (parts ! 0);
              deps_str = (if length parts > 1 then strip (parts ! 1) else []);
              apps1 = AList.update app_name [] apps
          in
            if deps_str \<noteq> [] \<and> deps_str \<noteq> ''N/A'' then
              let deps = map strip (filter (\<lambda>d. strip d \<noteq> []) (split_on CHR '','' deps_str));
                  apps2 = AList.update app_name deps apps1
              in (apps2, foldl (resolve_dep apps2 app_name) dependents deps)
            else (apps1, dependents))"

declare parse_line.simps [simp del]

text \<open>
  What lines 36 to 51 read from one line: nothing when the line is skipped, otherwise the
  identifier and its list of dependency references (empty when the dependency text is
  empty or \<^verbatim>\<open>N/A\<close>).
\<close>

definition line_record :: "string \<Rightarrow> (string \<times> string list) option" where
  "line_record raw_line =
     (let line = strip raw_line;
          parts = split_on CHR ''|'' line
      in if line = [] \<or> length parts < 2 then None
         else
           let deps_str = strip (parts ! 1)
           in Some (strip (parts ! 0),
                if deps_str \<noteq> [] \<and> deps_str \<noteq> ''N/A''
                then map strip (filter (\<lambda>d. strip d \<noteq> []) (split_on CHR '','' deps_str))
                else []))"

definition parse_lines :: "string list \<Rightarrow> apps \<times> dependent_sets" where
  "parse_lines file_lines = foldl parse_line ([], []) file_lines"

text \<open>
  Line 60: \<^verbatim>\<open>{k: sorted(v) for k, v in dependents.items()}\<close>. \<^verbatim>\<open>sorted\<close> of a set
  is the list of its elements in increasing order, strings compared code point by code
  point (the lexicographic order on \<^typ>\<open>string\<close>).
\<close>

definition parse_clusterapps :: "string list \<Rightarrow> apps \<times> dependents" where
  "parse_clusterapps file_lines =
     (let (apps, dependents) = parse_lines file_lines
      in (apps, map (\<lambda>(k, v). (k, sorted_list_of_set v)) dependents))"

text \<open>Line 219 of \<^verbatim>\<open>main\<close>: a record (name, dependency text) is written as one line.\<close>

definition record_line :: "string \<times> string \<Rightarrow> string" where
  "record_line r = fst r @ ''|'' @ snd r @ [newline]"

section \<open>Root finder: \<^verbatim>\<open>find_roots\<close>\<close>

definition find_roots :: "apps \<Rightarrow> string list" where
  "find_roots apps = sort (map fst (filter (\<lambda>(app, deps). deps = []) apps))"

section \<open>Block renderer: \<^verbatim>\<open>draw_app_block\<close>\<close>

type_synonym ustr = "nat list"

definition ustr_of :: "string \<Rightarrow> ustr" where
  "ustr_of s = map of_char s"

text \<open>The box-drawing code points of the script.\<close>

definition box_h :: nat where "box_h = 0x2500"
definition box_v :: nat where "box_v = 0x2502"
definition box_dr :: nat where "box_dr = 0x250C"
definition box_dl :: nat where "box_dl = 0x2510"
definition box_ur :: nat where "box_ur = 0x2514"
definition box_ul :: nat where "box_ul = 0x2518"
definition box_vr :: nat where "box_vr = 0x251C"
definition arrow_down :: nat where "arrow_down = 0x25BC"

text \<open>\<^verbatim>\<open>s * n\<close> for a string and an integer: empty when \<open>n\<close> is negative.\<close>

definition repeat :: "'a list \<Rightarrow> int \<Rightarrow> 'a list" where
  "repeat s n = concat (replicate (nat n) s)"

text \<open>\<^verbatim>\<open>sep.join(xs)\<close>\<close>

fun join_with :: "'a list \<Rightarrow> 'a list list \<Rightarrow> 'a list" where
  "join_with sep [] = []"
| "join_with sep [x] = x"
| "join_with sep (x # y # ys) = x @ sep @ join_with sep (y # ys)"

text \<open>Lines 95 to 99: the parents above the box.\<close>

definition parent_lines :: "string list \<Rightarrow> ustr list" where
  "parent_lines deps =
     (if deps \<noteq> [] then
        [ustr_of ''    '' @ [box_dr, box_h] @ ustr_of '' Parents (depends on): ''
           @ ustr_of (join_with '', '' (map (take 30) deps)),
         ustr_of ''    '' @ [box_v],
         ustr_of ''    '' @ [arrow_down]]
      else [])"

text \<open>Lines 102 to 110: the box. The widths are Python integers.\<close>

definition box_lines :: "bool \<Rightarrow> string \<Rightarrow> ustr list" where
  "box_lines is_root app_name =
     (let app_display = take 60 app_name;
          width = max (int (length app_display) + 4) 50
      in (if is_root then
            [[box_dr, box_h] @ repeat [box_h] (width - 4) @ [box_h, box_dl],
             [box_v] @ ustr_of '' '' @ ustr_of app_display @ ustr_of '' [ROOT]''
               @ repeat (ustr_of '' '') (width - int (length app_display) - 8) @ [box_v]]
          else
            [[box_dr, box_h] @ repeat [box_h] (width - 4) @ [box_h, box_dl],
             [box_v] @ ustr_of '' '' @ ustr_of app_display
               @ repeat (ustr_of '' '') (width - int (length app_display) - 4) @ [box_v]])
         @ [[box_ur, box_h] @ repeat [box_h] (width - 4) @ [box_h, box_ul]])"

text \<open>Lines 113 to 122: the children below the box.\<close>

definition child_lines :: "string list \<Rightarrow> ustr list" where
  "child_lines children =
     (if children \<noteq> [] then
        [ustr_of ''    '' @ [box_v],
         ustr_of ''    '' @ [arrow_down],
         ustr_of ''    '' @ [box_ur, box_h] @ ustr_of '' Children (used by):'']
        @ map (\<lambda>(i, child).
                 (if int i < int (length children) - 1
                  then ustr_of ''      '' @ [box_vr, box_h]
                  else ustr_of ''      '' @ [box_ur, box_h])
                 @ ustr_of '' '' @ ustr_of (take 55 child))
              (enumerate 0 children)
      else [ustr_of ''    '' @ [box_ur, box_h] @ ustr_of '' (no dependents)''])"

definition draw_app_block :: "apps \<Rightarrow> dependents \<Rightarrow> string \<Rightarrow> ustr list" where
  "draw_app_block apps dependents app_name =
     (let deps = (case map_of apps app_name of None \<Rightarrow> [] | Some ds \<Rightarrow> ds);
          is_root = (length deps = 0);
          children = (case map_of dependents app_name of None \<Rightarrow> [] | Some cs \<Rightarrow> cs)
      in parent_lines deps @ box_lines is_root app_name @ child_lines children)"

section \<open>Chain traversal and diagram assembler: \<^verbatim>\<open>create_block_diagram\<close>\<close>

text \<open>\<^verbatim>\<open>dependents.get(app, [])\<close>\<close>

definition children_of :: "dependents \<Rightarrow> string \<Rightarrow> string list" where
  "children_of dependents app = (case map_of dependents app of None \<Rightarrow> [] | Some cs \<Rightarrow> cs)"

text \<open>Lines 150 to 152: the children that are neither processed nor queued join the queue.\<close>

definition enqueue :: "string set \<Rightarrow> string list \<Rightarrow> string list \<Rightarrow> string list" where
  "enqueue processed queue children =
     foldl (\<lambda>q child. if child \<notin> processed \<and> child \<notin> set q then q @ [child] else q)
       queue children"

text \<open>Every identifier that occurs in a children list.\<close>

definition listed_children :: "dependents \<Rightarrow> string set" where
  "listed_children dependents = (\<Union>(k, cs) \<in> set dependents. set cs)"

text \<open>
  Lines 140 to 152: the \<^verbatim>\<open>while queue\<close> loop, on the queue, the chain so far and the
  processed set.
\<close>

function bfs :: "dependents \<Rightarrow> string list \<Rightarrow> string list \<Rightarrow> string set
    \<Rightarrow> string list \<times> string set" where
  "bfs dependents [] chain_apps processed = (chain_apps, processed)"
| "bfs dependents (app # queue) chain_apps processed =
     (if app \<in> processed then bfs dependents queue chain_apps processed
      else bfs dependents (enqueue (insert app processed) queue (children_of dependents app))
             (chain_apps @ [app]) (insert app processed))"
  by pat_completeness auto

termination
proof -
  have enq: "set (enqueue P q cs) \<subseteq> set q \<union> set cs" for P q cs
    unfolding enqueue_def by (induction cs arbitrary: q) (auto split: if_splits, fastforce+)
  have listed: "set (children_of d app) \<subseteq> listed_children d" for d app
  proof (cases "map_of d app")
    case None
    then show ?thesis by (simp add: children_of_def)
  next
    case (Some cs)
    then have "(app, cs) \<in> set d" by (rule map_of_SomeD)
    then show ?thesis using Some by (auto simp: children_of_def listed_children_def)
  qed
  have fin: "finite (listed_children d)" for d
    unfolding listed_children_def by auto
  have skip: "card ((set queue \<union> listed_children d) - processed)
      \<le> card ((set (app # queue) \<union> listed_children d) - processed)"
    for queue d processed app
    by (rule card_mono) (auto simp: fin)
  have visit: "card ((set (enqueue (insert app processed) queue (children_of d app))
            \<union> listed_children d) - insert app processed)
      < card ((set (app # queue) \<union> listed_children d) - processed)"
    if "app \<notin> processed" for queue d processed app
  proof -
    have "set (enqueue (insert app processed) queue (children_of d app))
        \<subseteq> set queue \<union> listed_children d"
      using enq [of "insert app processed" queue "children_of d app"] listed [of d app]
      by blast
    then have "(set (enqueue (insert app processed) queue (children_of d app))
          \<union> listed_children d) - insert app processed
        \<subset> (set (app # queue) \<union> listed_children d) - processed"
      using that by auto
    then show ?thesis
      by (intro psubset_card_mono) (auto simp: fin)
  qed
  show ?thesis
    apply (relation "(\<lambda>(d, q, c, p). card ((set q \<union> listed_children d) - p)) <*mlex*>
      measure (\<lambda>(d, q, c, p). length q)")
      apply (simp add: wf_mlex)
     apply (rule mlex_leq)
      apply (simp only: prod.case skip)
     apply simp
    apply (rule mlex_less)
    apply (simp only: prod.case)
    apply (erule visit)
    done
qed

text \<open>\<^verbatim>\<open>str(n)\<close> for an integer that is not negative.\<close>

fun str_nat :: "nat \<Rightarrow> string" where
  "str_nat n =
     (if n < 10 then [''0123456789'' ! n]
      else str_nat (n div 10) @ [''0123456789'' ! (n mod 10)])"

declare str_nat.simps [simp del]

text \<open>
  Lines 127 to 158: the loop over the roots. Its state is the text so far, the processed
  set and, for the statements below, the list of the chains (each root's
  \<^verbatim>\<open>chain_apps\<close>) in the order they were drawn.
\<close>

fun draw_roots :: "apps \<Rightarrow> dependents \<Rightarrow> nat \<Rightarrow> string list
    \<Rightarrow> ustr list \<times> string set \<times> string list list
    \<Rightarrow> ustr list \<times> string set \<times> string list list" where
  "draw_roots apps dependents root_idx [] state = state"
| "draw_roots apps dependents root_idx (root # roots) (lines, processed, drawn) =
     (let lines1 = (if root_idx > 0 then lines @ [[], repeat [box_h] 80, []] else lines);
          lines2 = lines1
            @ [ustr_of (''### Root Chain '' @ str_nat (root_idx + 1) @ '': '' @ root), []];
          (chain_apps, processed') = bfs dependents [root] [] processed;
          lines3 = lines2
            @ concat (map (\<lambda>app. draw_app_block apps dependents app @ [[]]) chain_apps)
      in draw_roots apps dependents (root_idx + 1) roots
           (lines3, processed', drawn @ [chain_apps]))"

text \<open>Lines 69 to 78.\<close>

definition header_lines :: "ustr list" where
  "header_lines = map ustr_of
     [''# ClusterApp Dependency Block Diagram'',
      [],
      ''This diagram shows each ClusterApp once as a block with its dependencies (parents) and dependents (children).'',
      ''Root nodes (apps with no dependencies) are shown at the top of each chain.'',
      [],
      ''## Block Diagram'',
      [],
      ''```'',
      []]"

text \<open>Lines 80 to 158: the state after the loop over the roots.\<close>

definition walk_roots :: "apps \<Rightarrow> dependents \<Rightarrow> ustr list \<times> string set \<times> string list list" where
  "walk_roots apps dependents =
     draw_roots apps dependents 0 (find_roots apps) (header_lines, {}, [])"

text \<open>Lines 163 to 171, for the sorted list of the remaining identifiers.\<close>

definition orphan_lines :: "apps \<Rightarrow> dependents \<Rightarrow> string list \<Rightarrow> ustr list" where
  "orphan_lines apps dependents remaining_sorted =
     [[], repeat [box_h] 80, [],
      ustr_of ''### Orphaned Apps (not connected to any root)'', []]
     @ concat (map (\<lambda>app. draw_app_block apps dependents app @ [[]]) remaining_sorted)"

definition create_block_diagram :: "apps \<Rightarrow> dependents \<Rightarrow> ustr" where
  "create_block_diagram apps dependents =
     (let (lines, processed, drawn) = walk_roots apps dependents;
          remaining = set (map fst apps) - processed;
          lines4 = (if remaining \<noteq> {}
                    then lines @ orphan_lines apps dependents (sorted_list_of_set remaining)
                    else lines)
      in join_with [10] (lines4 @ [ustr_of ''```'', []]))"

text \<open>The chains of the loop over the roots, and the remainder of line 161 as line 168 sorts it.\<close>

definition emitted_chains :: "apps \<Rightarrow> dependents \<Rightarrow> string list list" where
  "emitted_chains apps dependents = snd (snd (walk_roots apps dependents))"

definition remainder_chain :: "apps \<Rightarrow> dependents \<Rightarrow> string list" where
  "remainder_chain apps dependents =
     sorted_list_of_set (set (map fst apps) - fst (snd (walk_roots apps dependents)))"

text \<open>Lines 222 and 227 of \<^verbatim>\<open>main\<close>: from the lines of the file to the diagram.\<close>

definition generate_diagram :: "string list \<Rightarrow> ustr" where
  "generate_diagram file_lines =
     (let (apps, dependents) = parse_clusterapps file_lines
      in create_block_diagram apps dependents)"

section \<open>The iteration order of sets\<close>

text \<open>
  Python iterates a set of strings in an order that depends on the hash seed of the run.
  The script iterates a set in two places only, both inside \<^verbatim>\<open>sorted\<close> (lines 60 and
  168). The definitions below are the same functions with that order as a parameter:
  \<open>iter S\<close> is the order in which the run iterates the set \<open>S\<close>, and \<^verbatim>\<open>sorted(S)\<close>
  sorts that list. \<open>set_order iter\<close> says that \<open>iter\<close> lists every finite set once.
\<close>

definition set_order :: "(string set \<Rightarrow> string list) \<Rightarrow> bool" where
  "set_order iter \<longleftrightarrow> (\<forall>S. finite S \<longrightarrow> set (iter S) = S \<and> distinct (iter S))"

definition parse_clusterapps_run :: "(string set \<Rightarrow> string list) \<Rightarrow> string list
    \<Rightarrow> apps \<times> dependents" where
  "parse_clusterapps_run iter file_lines =
     (let (apps, dependents) = parse_lines file_lines
      in (apps, map (\<lambda>(k, v). (k, sort (iter v))) dependents))"

definition create_block_diagram_run :: "(string set \<Rightarrow> string list) \<Rightarrow> apps \<Rightarrow> dependents
    \<Rightarrow> ustr" where
  "create_block_diagram_run iter apps dependents =
     (let (lines, processed, drawn) = walk_roots apps dependents;
          remaining = set (map fst apps) - processed;
          lines4 = (if remaining \<noteq> {}
                    then lines @ orphan_lines apps dependents (sort (iter remaining))
                    else lines)
      in join_with [10] (lines4 @ [ustr_of ''```'', []]))"

definition generate_diagram_run :: "(string set \<Rightarrow> string list) \<Rightarrow> string list \<Rightarrow> ustr" where
  "generate_diagram_run iter file_lines =
     (let (apps, dependents) = parse_clusterapps_run iter file_lines
      in create_block_diagram_run iter apps dependents)"

section \<open>The name normalizer\<close>

lemma not_digit_dot [simp]: "\<not> is_digit CHR ''.''"
  by (simp add: is_digit_def)

lemma takeWhile_digits_ne:
  "d \<noteq> [] \<Longrightarrow> \<forall>c\<in>set d. is_digit c \<Longrightarrow> takeWhile is_digit (d @ r) \<noteq> []"
  by (cases d) auto

lemma spec_imp_match:
  assumes "spec_version_suffix t" "newline \<notin> set t"
  shows "version_match t"
proof -
  from assms(1) obtain d1 d2 d3 trailing where
    t: "t = CHR ''-'' # d1 @ CHR ''.'' # d2 @ CHR ''.'' # d3 @ trailing"
    and ne: "d1 \<noteq> []" "d2 \<noteq> []" "d3 \<noteq> []"
    and dg: "\<forall>c\<in>set d1. is_digit c" "\<forall>c\<in>set d2. is_digit c" "\<forall>c\<in>set d3. is_digit c"
    by (auto simp: spec_version_suffix_def)
  have nl: "rest_of_line (d3 @ trailing)"
    using assms(2) unfolding rest_of_line_def t by (auto dest: in_set_butlastD)
  show ?thesis
    unfolding version_match_def t
    using ne dg nl by (simp add: dropWhile_append3 takeWhile_digits_ne)
qed

lemma match_imp_spec:
  assumes "version_match t"
  shows "spec_version_suffix t"
proof -
  from assms obtain r0 r1 r2 where
    t: "t = CHR ''-'' # r0" and d1: "takeWhile is_digit r0 \<noteq> []"
    and r0: "dropWhile is_digit r0 = CHR ''.'' # r1" and d2: "takeWhile is_digit r1 \<noteq> []"
    and r1: "dropWhile is_digit r1 = CHR ''.'' # r2" and d3: "takeWhile is_digit r2 \<noteq> []"
    by (auto simp: version_match_def split: list.splits)
  have "r0 = takeWhile is_digit r0 @ CHR ''.'' # r1"
    using takeWhile_dropWhile_id [of is_digit r0] r0 by simp
  moreover have "r1 = takeWhile is_digit r1 @ CHR ''.'' # r2"
    using takeWhile_dropWhile_id [of is_digit r1] r1 by simp
  moreover have "r2 = takeWhile is_digit r2 @ dropWhile is_digit r2"
    by simp
  ultimately have "t = ''-'' @ takeWhile is_digit r0 @ ''.'' @ takeWhile is_digit r1 @ ''.''
       @ takeWhile is_digit r2 @ dropWhile is_digit r2"
    using t by simp
  moreover have "\<forall>c \<in> set (takeWhile is_digit r0 @ takeWhile is_digit r1
       @ takeWhile is_digit r2). is_digit c"
    by (auto dest: set_takeWhileD)
  ultimately show ?thesis
    unfolding spec_version_suffix_def using d1 d2 d3 by blast
qed

lemma get_base_name_Cons:
  assumes "newline \<notin> set (c # cs)"
  shows "get_base_name (c # cs) = (if version_match (c # cs) then [] else c # get_base_name cs)"
proof -
  have "last (c # cs) \<in> set (c # cs)" by (rule last_in_set) simp
  with assms have "last (c # cs) \<noteq> newline" by metis
  then show ?thesis by simp
qed

lemma get_base_name_split:
  "newline \<notin> set s \<Longrightarrow> \<exists>t. s = get_base_name s @ t \<and> (t = [] \<or> version_match t)"
proof (induction s)
  case Nil
  then show ?case by simp
next
  case (Cons c cs)
  then obtain t where "cs = get_base_name cs @ t" "t = [] \<or> version_match t" by auto
  then show ?case
    using get_base_name_Cons [OF Cons.prems] by (cases "version_match (c # cs)") auto
qed

lemma get_base_name_leftmost:
  "s = p @ t \<Longrightarrow> version_match t \<Longrightarrow> newline \<notin> set s
    \<Longrightarrow> length (get_base_name s) \<le> length p"
proof (induction s arbitrary: p)
  case Nil
  then show ?case by simp
next
  case (Cons c cs)
  show ?case
  proof (cases "version_match (c # cs)")
    case True
    with get_base_name_Cons [OF Cons.prems(3)] show ?thesis by simp
  next
    case False
    with Cons.prems obtain p' where p: "p = c # p'" "cs = p' @ t"
      by (cases p) auto
    with Cons.IH [of p'] Cons.prems False get_base_name_Cons [OF Cons.prems(3)]
    show ?thesis by simp
  qed
qed

lemmas eval_base_name =
  version_match_def is_digit_def rest_of_line_def newline_def

text \<open>
  C4. On an identifier (a token of one line: no line feed in it, as for every identifier
  the parser registers, see \<open>registered_no_newline\<close> below), \<open>get_base_name\<close>
  returns a prefix of the identifier, and what it removes is nothing or a suffix of the
  form dash, digits, dot, digits, dot, digits followed by any trailing characters; the
  removal point is the leftmost position where such a suffix starts; an identifier with no
  such suffix comes back unchanged. \<^verbatim>\<open>cert-manager-1.14.2\<close> becomes
  \<^verbatim>\<open>cert-manager\<close>, and \<^verbatim>\<open>cert-manager\<close> stays.
\<close>

theorem get_base_name_spec:
  assumes "newline \<notin> set s"
  shows "(\<exists>t. s = get_base_name s @ t \<and> (t = [] \<or> spec_version_suffix t))
    \<and> (\<forall>p t. s = p @ t \<and> spec_version_suffix t \<longrightarrow> length (get_base_name s) \<le> length p)
    \<and> ((\<nexists>p t. s = p @ t \<and> spec_version_suffix t) \<longrightarrow> get_base_name s = s)
    \<and> get_base_name ''cert-manager-1.14.2'' = ''cert-manager''
    \<and> get_base_name ''cert-manager'' = ''cert-manager''"
proof (intro conjI allI impI)
  from get_base_name_split [OF assms] obtain t where
    t: "s = get_base_name s @ t" "t = [] \<or> version_match t" by blast
  then show "\<exists>t. s = get_base_name s @ t \<and> (t = [] \<or> spec_version_suffix t)"
    using match_imp_spec by blast
  show "get_base_name s = s" if "\<nexists>p t. s = p @ t \<and> spec_version_suffix t"
    using t that match_imp_spec by (metis append_Nil2)
next
  fix p t assume "s = p @ t \<and> spec_version_suffix t"
  then show "length (get_base_name s) \<le> length p"
    using get_base_name_leftmost [of s p t] assms spec_imp_match [of t] by auto
next
  show "get_base_name ''cert-manager-1.14.2'' = ''cert-manager''"
    by (simp add: eval_base_name)
  show "get_base_name ''cert-manager'' = ''cert-manager''"
    by (simp add: eval_base_name)
qed

theorem get_base_name_spec_witness:
  "newline \<notin> set ''etcd-3.5.9-rc1-0.0.1''
    \<and> ''etcd-3.5.9-rc1-0.0.1'' = ''etcd'' @ ''-3.5.9-rc1-0.0.1''
    \<and> spec_version_suffix ''-3.5.9-rc1-0.0.1''
    \<and> ''etcd-3.5.9-rc1-0.0.1'' = ''etcd-3.5.9-rc1'' @ ''-0.0.1''
    \<and> spec_version_suffix ''-0.0.1''
    \<and> length (get_base_name ''etcd-3.5.9-rc1-0.0.1'') \<le> length ''etcd''
    \<and> get_base_name ''etcd-3.5.9-rc1-0.0.1'' = ''etcd''"
proof -
  have nl: "newline \<notin> set ''etcd-3.5.9-rc1-0.0.1''"
    by (simp add: newline_def)
  have m1: "spec_version_suffix ''-3.5.9-rc1-0.0.1''"
    by (rule match_imp_spec) (simp add: eval_base_name)
  have m2: "spec_version_suffix ''-0.0.1''"
    by (rule match_imp_spec) (simp add: eval_base_name)
  have "length (get_base_name ''etcd-3.5.9-rc1-0.0.1'') \<le> length ''etcd''"
    using get_base_name_spec [OF nl] m1 by (metis append_Cons append_Nil)
  moreover have "get_base_name ''etcd-3.5.9-rc1-0.0.1'' = ''etcd''"
    by (simp add: eval_base_name)
  ultimately show ?thesis using nl m1 m2 by simp
qed

section \<open>The dependency parser\<close>

lemma parse_line_record:
  "parse_line (apps, d) l =
     (case line_record l of
        None \<Rightarrow> (apps, d)
      | Some (n, deps) \<Rightarrow>
          (AList.update n deps apps, foldl (resolve_dep (AList.update n deps apps) n) d deps))"
  by (simp add: parse_line.simps line_record_def Let_def)

lemma dependent_set_add:
  "dependent_set (add_dependent e a d) p = (if p = e then insert a (dependent_set d e) else dependent_set d p)"
  by (simp add: dependent_set_def add_dependent_def update_conv')

lemma dependent_set_resolve:
  "c \<in> dependent_set (resolve_dep apps a d r) p \<longleftrightarrow>
     c \<in> dependent_set d p \<or> (c = a \<and> find (matches r) (map fst apps) = Some p)"
  by (auto simp: resolve_dep_def dependent_set_add split: option.splits)

lemma dependent_set_foldl:
  "c \<in> dependent_set (foldl (resolve_dep apps a) d deps) p \<longleftrightarrow>
     c \<in> dependent_set d p \<or> (c = a \<and> (\<exists>r \<in> set deps. find (matches r) (map fst apps) = Some p))"
  by (induction deps arbitrary: d) (auto simp: dependent_set_resolve)

lemma parse_lines_snoc: "parse_lines (ls @ [l]) = parse_line (parse_lines ls) l"
  by (simp add: parse_lines_def)

lemma dependent_set_parse_line:
  "c \<in> dependent_set (snd (parse_line st l)) p \<longleftrightarrow>
     c \<in> dependent_set (snd st) p \<or>
     (\<exists>deps r. line_record l = Some (c, deps) \<and> r \<in> set deps \<and>
        find (matches r) (map fst (fst (parse_line st l))) = Some p)"
  by (cases st) (auto simp: parse_line_record dependent_set_foldl split: option.splits)

lemma dependent_set_parse_lines:
  "c \<in> dependent_set (snd (parse_lines ls)) p \<longleftrightarrow>
     (\<exists>n deps r. n < length ls \<and> line_record (ls ! n) = Some (c, deps) \<and> r \<in> set deps \<and>
        find (matches r) (map fst (fst (parse_lines (take (Suc n) ls)))) = Some p)"
proof (induction ls rule: rev_induct)
  case Nil
  then show ?case by (simp add: parse_lines_def dependent_set_def)
next
  case (snoc l ls)
  have old: "(\<exists>n deps r. n < length ls \<and> line_record ((ls @ [l]) ! n) = Some (c, deps) \<and> r \<in> set deps \<and>
        find (matches r) (map fst (fst (parse_lines (take (Suc n) (ls @ [l]))))) = Some p)
    \<longleftrightarrow> (\<exists>n deps r. n < length ls \<and> line_record (ls ! n) = Some (c, deps) \<and> r \<in> set deps \<and>
        find (matches r) (map fst (fst (parse_lines (take (Suc n) ls)))) = Some p)"
    by (auto simp: nth_append)
  have new: "(\<exists>deps r. line_record ((ls @ [l]) ! length ls) = Some (c, deps) \<and> r \<in> set deps \<and>
        find (matches r) (map fst (fst (parse_lines (take (Suc (length ls)) (ls @ [l]))))) = Some p)
    \<longleftrightarrow> (\<exists>deps r. line_record l = Some (c, deps) \<and> r \<in> set deps \<and>
        find (matches r) (map fst (fst (parse_line (parse_lines ls) l))) = Some p)"
    by (simp add: parse_lines_snoc)
  have split: "(\<exists>n deps r. n < length (ls @ [l]) \<and> Q n deps r) \<longleftrightarrow>
      (\<exists>n deps r. n < length ls \<and> Q n deps r) \<or> (\<exists>deps r. Q (length ls) deps r)" for Q
    by (auto simp: less_Suc_eq)
  show ?case
    unfolding parse_lines_snoc dependent_set_parse_line snoc.IH split old new ..
qed

lemma keys_parse_line:
  "fst ` set (fst (parse_line st l)) =
     fst ` set (fst st) \<union> {c. \<exists>deps. line_record l = Some (c, deps)}"
  by (cases st) (auto simp: parse_line_record dom_update split: option.splits)

text \<open>Registration order: a line appends its identifier to the keys unless it is there already.\<close>

lemma registration_order:
  "map fst (fst (parse_line st l)) =
     (case line_record l of
        None \<Rightarrow> map fst (fst st)
      | Some (n, deps) \<Rightarrow>
          if n \<in> set (map fst (fst st)) then map fst (fst st) else map fst (fst st) @ [n])"
  by (cases st) (auto simp: parse_line_record update_keys split: option.splits)

lemma keys_parse_lines:
  "fst ` set (fst (parse_lines ls)) =
     {c. \<exists>n deps. n < length ls \<and> line_record (ls ! n) = Some (c, deps)}"
proof (induction ls rule: rev_induct)
  case Nil
  then show ?case by (simp add: parse_lines_def)
next
  case (snoc l ls)
  have "{c. \<exists>n deps. n < length (ls @ [l]) \<and> line_record ((ls @ [l]) ! n) = Some (c, deps)}
    = {c. \<exists>n deps. n < length ls \<and> line_record (ls ! n) = Some (c, deps)}
      \<union> {c. \<exists>deps. line_record l = Some (c, deps)}"
    by (auto simp: less_Suc_eq nth_append)
  then show ?case
    by (simp add: parse_lines_snoc keys_parse_line snoc.IH)
qed

lemma dependent_set_registered:
  "dependent_set (snd (parse_lines ls)) p \<subseteq> fst ` set (fst (parse_lines ls))"
  unfolding keys_parse_lines using dependent_set_parse_lines by blast

lemma finite_dependent_set: "finite (dependent_set (snd (parse_lines ls)) p)"
  by (rule finite_subset [OF dependent_set_registered]) simp

lemma distinct_add_dependent:
  "distinct (map fst d) \<Longrightarrow> distinct (map fst (add_dependent e a d))"
  by (simp add: add_dependent_def distinct_update)

lemma distinct_resolve_dep:
  "distinct (map fst d) \<Longrightarrow> distinct (map fst (resolve_dep apps a d r))"
  by (simp add: resolve_dep_def distinct_add_dependent split: option.splits)

lemma distinct_foldl_resolve:
  "distinct (map fst d) \<Longrightarrow> distinct (map fst (foldl (resolve_dep apps a) d deps))"
  by (induction deps arbitrary: d) (simp_all add: distinct_resolve_dep)

lemma distinct_parse_line:
  "distinct (map fst (fst st)) \<Longrightarrow> distinct (map fst (snd st)) \<Longrightarrow>
   distinct (map fst (fst (parse_line st l))) \<and> distinct (map fst (snd (parse_line st l)))"
  by (cases st) (auto simp: parse_line_record distinct_update distinct_foldl_resolve split: option.splits)

lemma distinct_parse_lines:
  "distinct (map fst (fst (parse_lines ls))) \<and> distinct (map fst (snd (parse_lines ls)))"
  by (induction ls rule: rev_induct) (simp_all add: parse_lines_def distinct_parse_line)

lemma entry_dependent_set:
  assumes "(k, v) \<in> set (snd (parse_lines ls))"
  shows "v = dependent_set (snd (parse_lines ls)) k"
proof -
  have "map_of (snd (parse_lines ls)) k = Some v"
    using assms distinct_parse_lines by (simp add: map_of_eq_Some_iff)
  then show ?thesis by (simp add: dependent_set_def)
qed

lemma fst_parse_clusterapps: "fst (parse_clusterapps ls) = fst (parse_lines ls)"
  by (simp add: parse_clusterapps_def split: prod.splits)

lemma snd_parse_clusterapps:
  "snd (parse_clusterapps ls) = map (\<lambda>(k, v). (k, sorted_list_of_set v)) (snd (parse_lines ls))"
  by (simp add: parse_clusterapps_def split: prod.splits)

lemma children_of_parse:
  "children_of (snd (parse_clusterapps ls)) p
     = sorted_list_of_set (dependent_set (snd (parse_lines ls)) p)"
  by (simp add: snd_parse_clusterapps children_of_def dependent_set_def map_of_map split: option.splits)

lemma set_children_of_parse:
  "set (children_of (snd (parse_clusterapps ls)) p) = dependent_set (snd (parse_lines ls)) p"
  by (simp add: children_of_parse finite_dependent_set)

lemma parse_children_registered:
  "listed_children (snd (parse_clusterapps ls)) \<subseteq> fst ` set (fst (parse_clusterapps ls))"
proof
  fix c assume "c \<in> listed_children (snd (parse_clusterapps ls))"
  then obtain k v where kv: "(k, v) \<in> set (snd (parse_lines ls))" "c \<in> set (sorted_list_of_set v)"
    by (auto simp: listed_children_def snd_parse_clusterapps)
  have v: "v = dependent_set (snd (parse_lines ls)) k"
    using kv(1) by (rule entry_dependent_set)
  then have "c \<in> dependent_set (snd (parse_lines ls)) k"
    using kv(2) finite_dependent_set [of ls k] by simp
  then show "c \<in> fst ` set (fst (parse_clusterapps ls))"
    using dependent_set_registered [of ls k] by (auto simp: fst_parse_clusterapps)
qed

lemma find_Some_matches: "find P xs = Some x \<Longrightarrow> P x \<and> x \<in> set xs"
  by (induction xs) (auto split: if_splits)

lemma keys_take_subset:
  "fst ` set (fst (parse_lines (take k ls))) \<subseteq> fst ` set (fst (parse_lines ls))"
proof
  fix c assume "c \<in> fst ` set (fst (parse_lines (take k ls)))"
  then obtain n deps where
    n: "n < length (take k ls)" "line_record (take k ls ! n) = Some (c, deps)"
    unfolding keys_parse_lines by blast
  from n(1) have "n < length ls" "take k ls ! n = ls ! n" by simp_all
  with n(2) show "c \<in> fst ` set (fst (parse_lines ls))"
    unfolding keys_parse_lines by auto
qed

text \<open>
  C2, as the code has it. For every file, \<open>child\<close> is in the children list of
  \<open>parent\<close> if and only if some record of \<open>child\<close> (line \<open>n\<close>) carries a reference
  \<open>r\<close> such that \<open>parent\<close> is the first identifier, in registration order among those
  registered by the lines up to and including line \<open>n\<close>, whose base name or raw name is
  \<open>r\<close>. Consequently every member of a children list has a record that carries a
  reference which the parent, a registered identifier, matches by base name or raw name.
\<close>

theorem children_characterisation:
  "(child \<in> set (children_of (snd (parse_clusterapps file_lines)) parent) \<longleftrightarrow>
     (\<exists>n deps r. n < length file_lines \<and> line_record (file_lines ! n) = Some (child, deps)
        \<and> r \<in> set deps
        \<and> find (matches r) (map fst (fst (parse_clusterapps (take (Suc n) file_lines))))
            = Some parent))
   \<and> (child \<in> set (children_of (snd (parse_clusterapps file_lines)) parent) \<longrightarrow>
        parent \<in> fst ` set (fst (parse_clusterapps file_lines))
        \<and> (\<exists>n deps r. n < length file_lines \<and> line_record (file_lines ! n) = Some (child, deps)
              \<and> r \<in> set deps \<and> matches r parent))"
proof (intro conjI impI)
  show iff: "child \<in> set (children_of (snd (parse_clusterapps file_lines)) parent) \<longleftrightarrow>
     (\<exists>n deps r. n < length file_lines \<and> line_record (file_lines ! n) = Some (child, deps)
        \<and> r \<in> set deps
        \<and> find (matches r) (map fst (fst (parse_clusterapps (take (Suc n) file_lines))))
            = Some parent)"
    unfolding set_children_of_parse fst_parse_clusterapps by (rule dependent_set_parse_lines)
  assume "child \<in> set (children_of (snd (parse_clusterapps file_lines)) parent)"
  with iff obtain n deps r where
    n: "n < length file_lines" "line_record (file_lines ! n) = Some (child, deps)" "r \<in> set deps"
    and f: "find (matches r) (map fst (fst (parse_lines (take (Suc n) file_lines)))) = Some parent"
    unfolding fst_parse_clusterapps by blast
  have m: "matches r parent"
    and k: "parent \<in> fst ` set (fst (parse_lines (take (Suc n) file_lines)))"
    using find_Some_matches [OF f] by simp_all
  show "parent \<in> fst ` set (fst (parse_clusterapps file_lines))"
    using k keys_take_subset [of "Suc n" file_lines] unfolding fst_parse_clusterapps by blast
  show "\<exists>n deps r. n < length file_lines \<and> line_record (file_lines ! n) = Some (child, deps)
      \<and> r \<in> set deps \<and> matches r parent"
    using n m by blast
qed

section \<open>Registered identifiers hold no line feed\<close>

text \<open>
  The file is read line by line, so a line feed can only be the last code point of a line
  (\<open>rest_of_line\<close>), and \<^verbatim>\<open>strip\<close> removes it: every identifier and every
  reference the parser reads is free of line feeds, which is the condition under which
  the name normalizer was described above.
\<close>

lemma set_strip: "set (strip s) \<subseteq> set s"
  unfolding strip_def by (auto dest!: set_dropWhileD)

lemma is_space_newline: "is_space newline"
  by (simp add: is_space_def newline_def)

lemma butlast_dropWhile: "set (butlast (dropWhile P xs)) \<subseteq> set (butlast xs)"
proof (cases "dropWhile P xs = []")
  case True
  show ?thesis unfolding True by simp
next
  case False
  have "xs = takeWhile P xs @ dropWhile P xs" by simp
  then have "butlast xs = takeWhile P xs @ butlast (dropWhile P xs)"
    using False by (metis butlast_append)
  then show ?thesis by (metis Un_upper2 set_append)
qed

lemma strip_line_no_newline:
  assumes "rest_of_line l"
  shows "newline \<notin> set (strip l)"
proof -
  define m where "m = dropWhile is_space l"
  have nb: "newline \<notin> set (butlast m)"
    using assms butlast_dropWhile [of is_space l] unfolding rest_of_line_def m_def by blast
  show ?thesis
  proof (cases "m = []")
    case True
    show ?thesis unfolding strip_def m_def [symmetric] True by simp
  next
    case False
    have "rev (butlast m @ [last m]) = last m # rev (butlast m)" by simp
    then have m: "rev m = last m # rev (butlast m)"
      using append_butlast_last_id [OF False] by simp
    show ?thesis
    proof (cases "is_space (last m)")
      case True
      then have "set (strip l) \<subseteq> set (butlast m)"
        unfolding strip_def m_def [symmetric] m by (auto dest!: set_dropWhileD)
      then show ?thesis using nb by blast
    next
      case False
      have ne: "last m \<noteq> newline"
      proof
        assume "last m = newline"
        then show False using False is_space_newline by simp
      qed
      have sub: "set (strip l) \<subseteq> insert (last m) (set (butlast m))"
        unfolding strip_def m_def [symmetric] m by (auto dest!: set_dropWhileD)
      show ?thesis
      proof
        assume "newline \<in> set (strip l)"
        then have "newline \<in> insert (last m) (set (butlast m))" using sub by (rule subsetD [rotated])
        then show False using ne nb by simp
      qed
    qed
  qed
qed

lemma split_on_ne: "split_on c s \<noteq> []"
  by (induction s) (simp_all split: list.splits)

lemma set_split_on: "p \<in> set (split_on c s) \<Longrightarrow> set p \<subseteq> set s"
proof (induction s arbitrary: p)
  case Nil
  then show ?case by simp
next
  case (Cons x xs)
  obtain q qs where q: "split_on c xs = q # qs"
    using split_on_ne [of c xs] by (cases "split_on c xs") simp_all
  show ?case
  proof (cases "x = c")
    case True
    then have "p = [] \<or> p \<in> set (split_on c xs)"
      using Cons.prems by simp
    then show ?thesis using Cons.IH [of p] by auto
  next
    case False
    then have "p = x # q \<or> p \<in> set qs"
      using Cons.prems by (simp add: q)
    moreover have "set q \<subseteq> set xs" using Cons.IH [of q] by (simp add: q)
    moreover have "set p \<subseteq> set xs" if "p \<in> set qs"
      using Cons.IH [of p] that by (simp add: q)
    ultimately show ?thesis by auto
  qed
qed

lemma line_record_no_newline:
  assumes "rest_of_line l" "line_record l = Some (n, deps)"
  shows "newline \<notin> set n \<and> (\<forall>d \<in> set deps. newline \<notin> set d)"
proof -
  define parts where "parts = split_on CHR ''|'' (strip l)"
  from assms(2) have len: "\<not> length parts < 2"
    and n: "n = strip (parts ! 0)"
    and deps: "set deps \<subseteq> strip ` set (split_on CHR '','' (strip (parts ! 1)))"
    unfolding line_record_def Let_def parts_def [symmetric]
    by (auto split: if_splits)
  have p: "set (parts ! i) \<subseteq> set (strip l)" if "i < 2" for i
    using set_split_on [of "parts ! i" "CHR ''|''" "strip l"] len that
    unfolding parts_def [symmetric] by (simp add: not_less)
  have nl: "newline \<notin> set (strip l)"
    using assms(1) by (rule strip_line_no_newline)
  have "newline \<notin> set n"
    unfolding n using set_strip [of "parts ! 0"] p [of 0] nl by auto
  moreover have "newline \<notin> set d" if "d \<in> set deps" for d
  proof -
    from that deps obtain e where e: "d = strip e" "e \<in> set (split_on CHR '','' (strip (parts ! 1)))"
      by auto
    have "set e \<subseteq> set (strip (parts ! 1))" using e(2) by (rule set_split_on)
    then show ?thesis
      unfolding e(1) using set_strip [of e] set_strip [of "parts ! 1"] p [of 1] nl by auto
  qed
  ultimately show ?thesis by blast
qed

lemma registered_no_newline:
  assumes "\<forall>l \<in> set file_lines. rest_of_line l"
    and "c \<in> fst ` set (fst (parse_clusterapps file_lines))"
  shows "newline \<notin> set c"
proof -
  from assms(2) obtain n deps where
    "n < length file_lines" "line_record (file_lines ! n) = Some (c, deps)"
    unfolding fst_parse_clusterapps keys_parse_lines by blast
  then show ?thesis
    using assms(1) line_record_no_newline [of "file_lines ! n" c deps] by auto
qed

section \<open>The chain traversal\<close>

lemma set_enqueue: "set (enqueue P q cs) \<subseteq> set q \<union> set cs"
  unfolding enqueue_def by (induction cs arbitrary: q) (auto split: if_splits, fastforce+)

lemma children_of_listed: "set (children_of d app) \<subseteq> listed_children d"
proof (cases "map_of d app")
  case None
  then show ?thesis by (simp add: children_of_def)
next
  case (Some cs)
  then have "(app, cs) \<in> set d" by (rule map_of_SomeD)
  then show ?thesis using Some by (auto simp: children_of_def listed_children_def)
qed

lemma bfs_new:
  "\<exists>new. bfs d q chain P = (chain @ new, P \<union> set new) \<and> distinct new \<and> set new \<inter> P = {}
     \<and> set new \<subseteq> set q \<union> listed_children d"
proof (induction d q chain P rule: bfs.induct)
  case (1 d chain P)
  then show ?case by simp
next
  case (2 d app queue chain P)
  show ?case
  proof (cases "app \<in> P")
    case True
    with 2(1) show ?thesis by auto
  next
    case False
    let ?q = "enqueue (insert app P) queue (children_of d app)"
    from 2(2) [OF False] obtain new where
      new: "bfs d ?q (chain @ [app]) (insert app P) = ((chain @ [app]) @ new, insert app P \<union> set new)"
        "distinct new" "set new \<inter> insert app P = {}" "set new \<subseteq> set ?q \<union> listed_children d"
      by blast
    have sub: "set ?q \<subseteq> set queue \<union> listed_children d"
      using set_enqueue [of "insert app P" queue "children_of d app"] children_of_listed [of d app]
      by blast
    have "bfs d (app # queue) chain P = (chain @ (app # new), P \<union> set (app # new))"
      using False new(1) by simp
    moreover have "distinct (app # new)" using new(2,3) by auto
    moreover have "set (app # new) \<inter> P = {}" using new(3) False by auto
    moreover have "set (app # new) \<subseteq> set (app # queue) \<union> listed_children d"
      using new(4) sub by auto
    ultimately show ?thesis by blast
  qed
qed

lemma draw_roots_new:
  "\<exists>ls new. draw_roots apps d idx roots (lines, P, drawn) = (ls, P \<union> set (concat new), drawn @ new)
     \<and> distinct (concat new) \<and> set (concat new) \<inter> P = {}
     \<and> set (concat new) \<subseteq> set roots \<union> listed_children d \<and> length new = length roots"
proof (induction roots arbitrary: idx lines P drawn)
  case Nil
  show ?case by (rule exI [of _ lines], rule exI [of _ "[]"]) simp
next
  case (Cons root roots)
  obtain chain where
    chain: "bfs d [root] [] P = (chain, P \<union> set chain)" "distinct chain" "set chain \<inter> P = {}"
      "set chain \<subseteq> {root} \<union> listed_children d"
    using bfs_new [of d "[root]" "[]" P] by auto
  define lines3 where "lines3 =
    (if idx > 0 then lines @ [[], repeat [box_h] 80, []] else lines)
      @ [ustr_of (''### Root Chain '' @ str_nat (idx + 1) @ '': '' @ root), []]
      @ concat (map (\<lambda>app. draw_app_block apps d app @ [[]]) chain)"
  have step: "draw_roots apps d idx (root # roots) (lines, P, drawn)
      = draw_roots apps d (idx + 1) roots (lines3, P \<union> set chain, drawn @ [chain])"
    by (simp add: chain(1) lines3_def Let_def del: bfs.simps)
  from Cons.IH [of "idx + 1" lines3 "P \<union> set chain" "drawn @ [chain]"] obtain ls new where
    new: "draw_roots apps d (idx + 1) roots (lines3, P \<union> set chain, drawn @ [chain])
        = (ls, (P \<union> set chain) \<union> set (concat new), (drawn @ [chain]) @ new)"
      "distinct (concat new)" "set (concat new) \<inter> (P \<union> set chain) = {}"
      "set (concat new) \<subseteq> set roots \<union> listed_children d" "length new = length roots"
    by blast
  have "draw_roots apps d idx (root # roots) (lines, P, drawn)
      = (ls, P \<union> set (concat (chain # new)), drawn @ (chain # new))"
    using step new(1) by (simp add: Un_assoc)
  moreover have "distinct (concat (chain # new))"
    using chain(2) new(2,3) by auto
  moreover have "set (concat (chain # new)) \<inter> P = {}"
    using chain(3) new(3) by auto
  moreover have "set (concat (chain # new)) \<subseteq> set (root # roots) \<union> listed_children d"
    using chain(4) new(4) by auto
  moreover have "length (chain # new) = length (root # roots)"
    using new(5) by simp
  ultimately show ?case by blast
qed

lemma find_roots_registered: "set (find_roots apps) \<subseteq> fst ` set apps"
  by (auto simp: find_roots_def)

lemma walk_partition:
  assumes "listed_children dependents \<subseteq> fst ` set apps"
  shows "set (concat (emitted_chains apps dependents) @ remainder_chain apps dependents)
        = fst ` set apps
    \<and> distinct (concat (emitted_chains apps dependents) @ remainder_chain apps dependents)"
proof -
  obtain ls new where
    w: "walk_roots apps dependents = (ls, set (concat new), new)"
    and d: "distinct (concat new)"
    and s: "set (concat new) \<subseteq> set (find_roots apps) \<union> listed_children dependents"
    using draw_roots_new [of apps dependents 0 "find_roots apps" header_lines "{}" "[]"]
    unfolding walk_roots_def by auto
  have sub: "set (concat new) \<subseteq> fst ` set apps"
    using s assms find_roots_registered [of apps] by blast
  have e: "emitted_chains apps dependents = new"
    by (simp add: emitted_chains_def w)
  have r: "remainder_chain apps dependents
      = sorted_list_of_set (fst ` set apps - set (concat new))"
    by (simp add: remainder_chain_def w)
  have fin: "finite (fst ` set apps - set (concat new))" by simp
  show ?thesis
    unfolding e r using d sub fin by (auto simp del: set_concat)
qed

section \<open>The iteration order of sets does not show\<close>

lemma sort_set_order:
  assumes "set_order iter" "finite S"
  shows "sort (iter S) = sorted_list_of_set S"
proof -
  have "set (iter S) = S" "distinct (iter S)"
    using assms by (auto simp: set_order_def)
  then have "sorted_list_of_set (set (sort (iter S))) = sort (iter S)"
    by (intro sorted_list_of_set.idem_if_sorted_distinct) simp_all
  then show ?thesis using \<open>set (iter S) = S\<close> by simp
qed

lemma parse_clusterapps_run_eq:
  assumes "set_order iter"
  shows "parse_clusterapps_run iter ls = parse_clusterapps ls"
proof -
  have "sort (iter v) = sorted_list_of_set v" if "(k, v) \<in> set (snd (parse_lines ls))" for k v
    using entry_dependent_set [OF that] finite_dependent_set [of ls k] sort_set_order [OF assms]
    by simp
  then have "map (\<lambda>(k, v). (k, sort (iter v))) (snd (parse_lines ls))
      = map (\<lambda>(k, v). (k, sorted_list_of_set v)) (snd (parse_lines ls))"
    by (intro map_cong) auto
  then show ?thesis
    by (simp add: parse_clusterapps_run_def parse_clusterapps_def split: prod.splits)
qed

lemma create_block_diagram_run_eq:
  assumes "set_order iter"
  shows "create_block_diagram_run iter apps d = create_block_diagram apps d"
proof -
  have "sort (iter (set (map fst apps) - P)) = sorted_list_of_set (set (map fst apps) - P)" for P
    by (rule sort_set_order [OF assms]) simp
  then show ?thesis
    by (simp add: create_block_diagram_run_def create_block_diagram_def Let_def split: prod.splits)
qed

lemma generate_diagram_run_eq:
  "set_order iter \<Longrightarrow> generate_diagram_run iter ls = generate_diagram ls"
  by (simp add: generate_diagram_run_def generate_diagram_def parse_clusterapps_run_eq
      create_block_diagram_run_eq)

lemma sorted_find_roots: "sorted (find_roots apps)"
  by (simp add: find_roots_def)

lemma set_order_sorted: "set_order sorted_list_of_set"
  by (simp add: set_order_def)

lemma set_order_rev: "set_order (\<lambda>S. rev (sorted_list_of_set S))"
  by (simp add: set_order_def)

text \<open>
  C8. Whatever the order in which two runs iterate their sets, the diagram generated from
  the same lines is the same text; and every set is rendered sorted: the roots, each
  children list (which has no duplicate either) and the remainder.
\<close>

theorem diagram_deterministic:
  assumes "set_order iter1" and "set_order iter2"
  shows "generate_diagram_run iter1 file_lines = generate_diagram_run iter2 file_lines
    \<and> sorted (find_roots (fst (parse_clusterapps_run iter1 file_lines)))
    \<and> (\<forall>(k, cs) \<in> set (snd (parse_clusterapps_run iter1 file_lines)). sorted cs \<and> distinct cs)
    \<and> sorted (remainder_chain (fst (parse_clusterapps_run iter1 file_lines))
         (snd (parse_clusterapps_run iter1 file_lines)))"
proof (intro conjI)
  show "generate_diagram_run iter1 file_lines = generate_diagram_run iter2 file_lines"
    using assms by (simp add: generate_diagram_run_eq)
  show "sorted (find_roots (fst (parse_clusterapps_run iter1 file_lines)))"
    by (rule sorted_find_roots)
  show "\<forall>(k, cs) \<in> set (snd (parse_clusterapps_run iter1 file_lines)). sorted cs \<and> distinct cs"
    unfolding parse_clusterapps_run_eq [OF assms(1)] snd_parse_clusterapps by auto
  show "sorted (remainder_chain (fst (parse_clusterapps_run iter1 file_lines))
         (snd (parse_clusterapps_run iter1 file_lines)))"
    by (simp add: remainder_chain_def)
qed

section \<open>The block renderer\<close>

lemma length_ustr_of [simp]: "length (ustr_of s) = length s"
  by (simp add: ustr_of_def)

lemma repeat1: "repeat [c] n = replicate (nat n) c"
  by (induction "nat n" arbitrary: n) (auto simp: repeat_def)

lemma ustr_space: "ustr_of '' '' = [32]"
  by (simp add: ustr_of_def)

lemma no_root_tag: "take 7 (replicate m (32::nat) @ [box_v]) \<noteq> ustr_of '' [ROOT]''"
proof (cases m)
  case 0
  then show ?thesis by (simp add: ustr_of_def)
next
  case (Suc m')
  then show ?thesis
    by (cases m') (simp_all add: ustr_of_def box_v_def)
qed

lemma border_width: "nat (max (int n + 4) 50 - 4) + 2 = max 50 (n + 4) - 2"
  by (simp add: max_def)

lemma border_line:
  "[l, box_h] @ repeat [box_h] (max (int n + 4) 50 - 4) @ [box_h, r]
     = [l] @ replicate (max 50 (n + 4) - 2) box_h @ [r]"
  unfolding repeat1 border_width [symmetric]
  by (simp add: replicate_append_same)

lemma box_lines_shape:
  "box_lines is_root app_name =
     [[box_dr] @ replicate (max 50 (length (take 60 app_name) + 4) - 2) box_h @ [box_dl],
      [box_v, 32] @ ustr_of (take 60 app_name)
        @ (if is_root
           then ustr_of '' [ROOT]''
             @ replicate (nat (max (int (length (take 60 app_name)) + 4) 50
                  - int (length (take 60 app_name)) - 8)) 32
           else replicate (nat (max (int (length (take 60 app_name)) + 4) 50
                  - int (length (take 60 app_name)) - 4)) 32)
        @ [box_v],
      [box_ur] @ replicate (max 50 (length (take 60 app_name) + 4) - 2) box_h @ [box_ul]]"
  unfolding box_lines_def Let_def border_line
  by (simp add: ustr_space repeat1)

lemma length_border: "length ([l] @ replicate (max 50 (n + 4) - 2) box_h @ [r]) = max 50 (n + 4)"
  by (simp add: max_def)

lemma length_parent_lines: "length (parent_lines deps) = (if deps = [] then 0 else 3)"
  by (simp add: parent_lines_def)

lemma child_lines_Nil:
  "child_lines [] = [ustr_of ''    '' @ [box_ur, box_h] @ ustr_of '' (no dependents)'']"
  by (simp add: child_lines_def)

lemma length_child_lines:
  "children \<noteq> [] \<Longrightarrow> length (child_lines children) = 3 + length children"
  by (simp add: child_lines_def)

lemma nth_child_lines:
  assumes "i < length children"
  shows "child_lines children ! (3 + i) =
     ustr_of ''      '' @ [if i + 1 < length children then box_vr else box_ur, box_h, 32]
       @ ustr_of (take 55 (children ! i))"
proof -
  have ne: "children \<noteq> []" using assms by auto
  have "child_lines children ! (3 + i) =
      (\<lambda>(i, child).
                 (if int i < int (length children) - 1
                  then ustr_of ''      '' @ [box_vr, box_h]
                  else ustr_of ''      '' @ [box_ur, box_h])
                 @ ustr_of '' '' @ ustr_of (take 55 child)) (enumerate 0 children ! i)"
    using ne assms unfolding child_lines_def by (simp add: nth_append)
  also have "enumerate 0 children ! i = (i, children ! i)"
    using assms by (simp add: nth_enumerate_eq)
  finally show ?thesis
    by (auto simp: ustr_space)
qed

lemma draw_app_block_parts:
  "draw_app_block apps dependents app_name =
     parent_lines (case map_of apps app_name of None \<Rightarrow> [] | Some ds \<Rightarrow> ds)
     @ box_lines ((case map_of apps app_name of None \<Rightarrow> [] | Some ds \<Rightarrow> ds) = []) app_name
     @ child_lines (children_of dependents app_name)"
  by (simp add: draw_app_block_def children_of_def Let_def)

text \<open>
  C9. The block drawn for an identifier: with \<open>k\<close> the number of lines above the box
  (three when there are parents, none otherwise), lines \<open>k\<close> and \<open>k + 2\<close> are the top
  and bottom borders, of width \<open>max 50 (length display + 4)\<close> for the display name
  truncated to 60 code points; line \<open>k + 1\<close> starts with the bar, a space and the display
  name, and \<^verbatim>\<open> [ROOT]\<close> follows the name exactly when the parent list is empty; with no
  children the block ends after the box with the one line \<^verbatim>\<open>(no dependents)\<close>, and
  otherwise with three connector lines and one line per child.
\<close>

theorem block_shape:
  "let parents = (case map_of apps app_name of None \<Rightarrow> [] | Some ds \<Rightarrow> ds);
       children = children_of dependents app_name;
       block = draw_app_block apps dependents app_name;
       display = take 60 app_name;
       width = max 50 (length display + 4);
       k = (if parents = [] then 0 else 3)
   in block ! k = [box_dr] @ replicate (width - 2) box_h @ [box_dl]
    \<and> length (block ! k) = width
    \<and> block ! (k + 2) = [box_ur] @ replicate (width - 2) box_h @ [box_ul]
    \<and> length (block ! (k + 2)) = width
    \<and> take (2 + length display) (block ! (k + 1)) = [box_v, 32] @ ustr_of display
    \<and> (take 7 (drop (2 + length display) (block ! (k + 1))) = ustr_of '' [ROOT]''
         \<longleftrightarrow> parents = [])
    \<and> (children = [] \<longrightarrow> length block = k + 4
         \<and> block ! (k + 3) = ustr_of ''    '' @ [box_ur, box_h] @ ustr_of '' (no dependents)'')
    \<and> (children \<noteq> [] \<longrightarrow> length block = k + 6 + length children
         \<and> (\<forall>i < length children. block ! (k + 6 + i) =
               ustr_of ''      '' @ [if i + 1 < length children then box_vr else box_ur, box_h, 32]
                 @ ustr_of (take 55 (children ! i))))"
proof -
  define parents where "parents = (case map_of apps app_name of None \<Rightarrow> [] | Some ds \<Rightarrow> ds)"
  define children where "children = children_of dependents app_name"
  define block where "block = draw_app_block apps dependents app_name"
  define display where "display = take 60 app_name"
  define width where "width = max 50 (length display + 4)"
  define k where "k = (if parents = [] then 0 else 3 :: nat)"
  define top where "top = [box_dr] @ replicate (width - 2) box_h @ [box_dl]"
  define bot where "bot = [box_ur] @ replicate (width - 2) box_h @ [box_ul]"
  define pad where "pad = (if parents = []
           then ustr_of '' [ROOT]''
             @ replicate (nat (max (int (length display) + 4) 50 - int (length display) - 8)) 32
           else replicate (nat (max (int (length display) + 4) 50 - int (length display) - 4)) 32)"
  define mid where "mid = [box_v, 32] @ ustr_of display @ pad @ [box_v]"
  have box: "box_lines (parents = []) app_name = [top, mid, bot]"
    unfolding box_lines_shape top_def mid_def bot_def pad_def width_def display_def by simp
  have k: "length (parent_lines parents) = k"
    by (simp add: length_parent_lines k_def)
  have block: "block = parent_lines parents @ [top, mid, bot] @ child_lines children"
    unfolding block_def draw_app_block_parts parents_def [symmetric] children_def [symmetric] box ..
  have n0: "block ! k = top" and n1: "block ! (k + 1) = mid" and n2: "block ! (k + 2) = bot"
    and n3: "block ! (k + 3 + i) = child_lines children ! i" for i
    unfolding block using k by (simp_all add: nth_append)
  have len: "length block = k + 3 + length (child_lines children)"
    unfolding block using k by simp
  have wtop: "length top = width" and wbot: "length bot = width"
    unfolding top_def bot_def width_def by (simp_all add: max_def)
  have pre: "take (2 + length display) mid = [box_v, 32] @ ustr_of display"
    unfolding mid_def by simp
  have tag: "take 7 (drop (2 + length display) mid) = ustr_of '' [ROOT]'' \<longleftrightarrow> parents = []"
  proof (cases "parents = []")
    case True
    then show ?thesis unfolding mid_def pad_def by simp
  next
    case False
    then show ?thesis unfolding mid_def pad_def using no_root_tag by simp
  qed
  have none: "length block = k + 4
      \<and> block ! (k + 3) = ustr_of ''    '' @ [box_ur, box_h] @ ustr_of '' (no dependents)''"
    if "children = []"
    using n3 [of 0] len that by (simp add: child_lines_Nil)
  have some: "length block = k + 6 + length children
      \<and> (\<forall>i < length children. block ! (k + 6 + i) =
            ustr_of ''      '' @ [if i + 1 < length children then box_vr else box_ur, box_h, 32]
              @ ustr_of (take 55 (children ! i)))"
    if "children \<noteq> []"
  proof (intro conjI allI impI)
    show "length block = k + 6 + length children"
      using len length_child_lines [OF that] by simp
    fix i assume "i < length children"
    then show "block ! (k + 6 + i) =
        ustr_of ''      '' @ [if i + 1 < length children then box_vr else box_ur, box_h, 32]
          @ ustr_of (take 55 (children ! i))"
      using n3 [of "3 + i"] nth_child_lines [of i children] by (simp add: add.assoc)
  qed
  have "block ! k = top \<and> length (block ! k) = width
    \<and> block ! (k + 2) = bot \<and> length (block ! (k + 2)) = width
    \<and> take (2 + length display) (block ! (k + 1)) = [box_v, 32] @ ustr_of display
    \<and> (take 7 (drop (2 + length display) (block ! (k + 1))) = ustr_of '' [ROOT]''
         \<longleftrightarrow> parents = [])
    \<and> (children = [] \<longrightarrow> length block = k + 4
         \<and> block ! (k + 3) = ustr_of ''    '' @ [box_ur, box_h] @ ustr_of '' (no dependents)'')
    \<and> (children \<noteq> [] \<longrightarrow> length block = k + 6 + length children
         \<and> (\<forall>i < length children. block ! (k + 6 + i) =
               ustr_of ''      '' @ [if i + 1 < length children then box_vr else box_ur, box_h, 32]
                 @ ustr_of (take 55 (children ! i))))"
    using n0 n1 n2 wtop wbot pre tag none some by simp
  then show ?thesis
    unfolding Let_def parents_def children_def block_def display_def width_def k_def top_def bot_def
    by blast
qed

section \<open>First match, skipped lines and the examples\<close>

lemmas eval_parse =
  parse_clusterapps_def parse_lines_def parse_line.simps record_line_def strip_def is_space_def
  resolve_dep_def matches_def add_dependent_def dependent_set_def eval_base_name Let_def

lemmas eval_walk =
  emitted_chains_def remainder_chain_def walk_roots_def find_roots_def
  children_of_def enqueue_def Let_def insert_Diff_if

lemma find_filter_Cons: "filter P xs = x # ys \<Longrightarrow> find P xs = Some x"
  by (induction xs) (auto split: if_splits)

lemma find_filter_Nil: "filter P xs = [] \<Longrightarrow> find P xs = None"
  by (induction xs) (auto split: if_splits)

text \<open>
  C3. Resolving one reference \<open>dep\<close> of the identifier \<open>app_name\<close>: when the registered
  identifiers that match (in registration order) are \<open>first # later\<close>, the identifier joins
  the children set of \<open>first\<close> and the children set of every other identifier, so of
  every later candidate, stays as it was; when none matches, nothing changes.
\<close>

theorem first_match_only:
  "(\<forall>first later. filter (matches dep) (map fst apps) = first # later \<longrightarrow>
       dependent_set (resolve_dep apps app_name dependents dep) first
         = insert app_name (dependent_set dependents first)
     \<and> (\<forall>other. other \<noteq> first \<longrightarrow>
           dependent_set (resolve_dep apps app_name dependents dep) other
             = dependent_set dependents other))
   \<and> (filter (matches dep) (map fst apps) = [] \<longrightarrow>
        resolve_dep apps app_name dependents dep = dependents)"
proof (intro conjI allI impI)
  fix first later assume f: "filter (matches dep) (map fst apps) = first # later"
  then have "find (matches dep) (map fst apps) = Some first"
    by (rule find_filter_Cons)
  then have r: "resolve_dep apps app_name dependents dep = add_dependent first app_name dependents"
    by (simp add: resolve_dep_def)
  show "dependent_set (resolve_dep apps app_name dependents dep) first
         = insert app_name (dependent_set dependents first)"
    unfolding r by (simp add: dependent_set_add)
  fix other assume "other \<noteq> first"
  then show "dependent_set (resolve_dep apps app_name dependents dep) other
             = dependent_set dependents other"
    unfolding r by (simp add: dependent_set_add)
next
  assume "filter (matches dep) (map fst apps) = []"
  then have "find (matches dep) (map fst apps) = None"
    by (rule find_filter_Nil)
  then show "resolve_dep apps app_name dependents dep = dependents"
    by (simp add: resolve_dep_def)
qed

theorem first_match_only_witness:
  "filter (matches ''foo'') (map fst [(''foo-1.0.0'', []), (''foo-2.0.0'', [])])
      = [''foo-1.0.0'', ''foo-2.0.0'']
   \<and> dependent_set (resolve_dep [(''foo-1.0.0'', []), (''foo-2.0.0'', [])] ''x'' [] ''foo'')
        ''foo-1.0.0'' = {''x''}
   \<and> dependent_set (resolve_dep [(''foo-1.0.0'', []), (''foo-2.0.0'', [])] ''x'' [] ''foo'')
        ''foo-2.0.0'' = {}
   \<and> filter (matches ''bar'') (map fst [(''foo-1.0.0'', []), (''foo-2.0.0'', [])]) = []
   \<and> resolve_dep [(''foo-1.0.0'', []), (''foo-2.0.0'', [])] ''y'' [] ''bar'' = []
   \<and> parse_clusterapps (map record_line
        [(''foo-1.0.0'', []), (''foo-2.0.0'', []), (''x'', ''foo''), (''y'', ''bar'')])
      = ([(''foo-1.0.0'', []), (''foo-2.0.0'', []), (''x'', [''foo'']), (''y'', [''bar''])],
         [(''foo-1.0.0'', [''x''])])"
proof -
  let ?apps = "[(''foo-1.0.0'', []), (''foo-2.0.0'', [])] :: apps"
  have c: "filter (matches ''foo'') (map fst ?apps) = [''foo-1.0.0'', ''foo-2.0.0'']"
    by (simp add: matches_def eval_base_name)
  have n: "filter (matches ''bar'') (map fst ?apps) = []"
    by (simp add: matches_def eval_base_name)
  have e: "dependent_set [] k = {}" for k
    by (simp add: dependent_set_def)
  have "dependent_set (resolve_dep ?apps ''x'' [] ''foo'') ''foo-1.0.0'' = {''x''}"
    and "dependent_set (resolve_dep ?apps ''x'' [] ''foo'') ''foo-2.0.0'' = {}"
    using first_match_only [of "''foo''" ?apps "''x''" "[]"] c by (simp_all add: e)
  moreover have "resolve_dep ?apps ''y'' [] ''bar'' = []"
    using first_match_only [of "''bar''" ?apps "''y''" "[]"] n by simp
  moreover have "parse_clusterapps (map record_line
        [(''foo-1.0.0'', []), (''foo-2.0.0'', []), (''x'', ''foo''), (''y'', ''bar'')])
      = ([(''foo-1.0.0'', []), (''foo-2.0.0'', []), (''x'', [''foo'']), (''y'', [''bar''])],
         [(''foo-1.0.0'', [''x''])])"
    by (simp add: eval_parse)
  ultimately show ?thesis using c n by simp
qed

lemma not_space_bar [simp]: "\<not> is_space CHR ''|''"
  by (simp add: is_space_def)

lemma dropWhile_before: "\<not> P c \<Longrightarrow> dropWhile P (xs @ c # ys) = dropWhile P xs @ c # ys"
  by (induction xs) auto

lemma strip_bar:
  "strip (name @ CHR ''|'' # rest)
     = dropWhile is_space name @ CHR ''|'' # rev (dropWhile is_space (rev rest))"
  by (simp add: strip_def dropWhile_before)

lemma split_on_none: "c \<notin> set xs \<Longrightarrow> split_on c xs = [xs]"
  by (induction xs) auto

lemma split_on_before: "c \<notin> set xs \<Longrightarrow> split_on c (xs @ c # ys) = xs # split_on c ys"
  by (induction xs) auto

lemma strip_dropWhile: "strip (dropWhile is_space s) = strip s"
  by (simp add: strip_def)

lemma set_dropWhile_subset: "c \<notin> set xs \<Longrightarrow> c \<notin> set (dropWhile P xs)"
  by (auto dest: set_dropWhileD)

lemma parse_line_skip:
  assumes "length (split_on CHR ''|'' (strip l)) < 2"
  shows "parse_line st l = st"
  using assms by (cases st) (simp add: parse_line.simps Let_def)

lemma parse_line_empty_text:
  assumes "CHR ''|'' \<notin> set name" "text = [] \<or> text = ''N/A''"
  shows "line_record (record_line (name, text)) = Some (strip name, [])"
proof -
  have "rev (dropWhile is_space (rev ([] @ [newline]))) = []"
    and "rev (dropWhile is_space (rev (''N/A'' @ [newline]))) = ''N/A''"
    by (simp_all add: is_space_def newline_def)
  then have rest: "rev (dropWhile is_space (rev (text @ [newline]))) = text"
    using assms(2) by blast
  have "record_line (name, text) = name @ CHR ''|'' # (text @ [newline])"
    by (simp add: record_line_def)
  then have s: "strip (record_line (name, text)) = dropWhile is_space name @ CHR ''|'' # text"
    by (simp only: strip_bar rest)
  have t: "split_on CHR ''|'' text = [text]"
    using assms(2) by auto
  have p: "split_on CHR ''|'' (strip (record_line (name, text))) = [dropWhile is_space name, text]"
    unfolding s using assms(1) by (simp add: split_on_before set_dropWhile_subset t)
  have "strip [] = []" and "strip ''N/A'' = ''N/A''"
    by (simp_all add: strip_def is_space_def)
  then have st: "strip text = text"
    using assms(2) by blast
  show ?thesis
    unfolding line_record_def Let_def p using s assms(2) by (auto simp: st strip_dropWhile)
qed

text \<open>
  C7, as the code has it. A line with fewer than two fields (no \<^verbatim>\<open>|\<close> after
  stripping) is skipped by line 41: the result is the same as without the line, so its
  identifier is not registered. A record written with an empty dependency text, or
  \<^verbatim>\<open>N/A\<close>, is registered with an empty parent list.
\<close>

theorem short_line_skipped:
  "(length (split_on CHR ''|'' (strip raw_line)) < 2 \<longrightarrow>
      parse_clusterapps (before @ [raw_line] @ after) = parse_clusterapps (before @ after))
   \<and> (CHR ''|'' \<notin> set name \<and> (text = [] \<or> text = ''N/A'') \<longrightarrow>
        map_of (fst (parse_clusterapps (before @ [record_line (name, text)]))) (strip name)
          = Some [])"
proof (intro conjI impI)
  assume "length (split_on CHR ''|'' (strip raw_line)) < 2"
  then have "parse_lines (before @ [raw_line] @ after) = parse_lines (before @ after)"
    by (simp add: parse_lines_def parse_line_skip)
  then show "parse_clusterapps (before @ [raw_line] @ after) = parse_clusterapps (before @ after)"
    by (simp add: parse_clusterapps_def)
next
  assume "CHR ''|'' \<notin> set name \<and> (text = [] \<or> text = ''N/A'')"
  then have "line_record (record_line (name, text)) = Some (strip name, [])"
    using parse_line_empty_text by blast
  then show "map_of (fst (parse_clusterapps (before @ [record_line (name, text)]))) (strip name)
      = Some []"
    by (cases "parse_lines before")
      (simp add: fst_parse_clusterapps parse_lines_snoc parse_line_record update_conv')
qed

theorem short_line_skipped_witness:
  "length (split_on CHR ''|'' (strip (''solo'' @ [newline]))) < 2
   \<and> parse_clusterapps ([record_line (''a'', ''N/A'')] @ [''solo'' @ [newline]] @ [record_line (''b'', ''a'')])
       = parse_clusterapps ([record_line (''a'', ''N/A'')] @ [record_line (''b'', ''a'')])
   \<and> CHR ''|'' \<notin> set ''solo''
   \<and> map_of (fst (parse_clusterapps ([record_line (''a'', ''N/A'')] @ [record_line (''solo'', [])])))
        (strip ''solo'') = Some []"
proof -
  have h: "length (split_on CHR ''|'' (strip (''solo'' @ [newline]))) < 2"
    by (simp add: strip_def is_space_def newline_def)
  have n: "CHR ''|'' \<notin> set ''solo''" by simp
  show ?thesis
    using h n
      short_line_skipped [of "''solo'' @ [newline]" "[record_line (''a'', ''N/A'')]"
        "[record_line (''b'', ''a'')]" "''solo''" "[]"]
    by blast
qed

text \<open>
  The claim C7 as the specification states it fails on the line \<^verbatim>\<open>solo\<close>: it has
  one field, and \<^verbatim>\<open>solo\<close> is not registered.
\<close>

theorem short_line_counterexample:
  "length (split_on CHR ''|'' (strip (''solo'' @ [newline]))) < 2
   \<and> map_of (fst (parse_clusterapps [record_line (''a'', ''N/A''), ''solo'' @ [newline]])) ''solo''
       = None
   \<and> fst (parse_clusterapps [record_line (''a'', ''N/A''), ''solo'' @ [newline]]) = [(''a'', [])]"
  by (simp add: eval_parse)

text \<open>
  C5. The records \<^verbatim>\<open>("a","N/A")\<close>, \<^verbatim>\<open>("b","a")\<close>, \<^verbatim>\<open>("c","a,b")\<close>: the only
  root is \<^verbatim>\<open>a\<close>, its children are \<^verbatim>\<open>b\<close> and \<^verbatim>\<open>c\<close>, the children of
  \<^verbatim>\<open>b\<close> are \<^verbatim>\<open>c\<close>, \<^verbatim>\<open>c\<close> has none, the traversal draws the one chain
  \<^verbatim>\<open>a, b, c\<close> and the remainder is empty.
\<close>

theorem example_chain:
  "(let (apps, dependents) =
          parse_clusterapps (map record_line [(''a'', ''N/A''), (''b'', ''a''), (''c'', ''a,b'')])
    in find_roots apps = [''a'']
     \<and> children_of dependents ''a'' = [''b'', ''c'']
     \<and> children_of dependents ''b'' = [''c'']
     \<and> children_of dependents ''c'' = []
     \<and> emitted_chains apps dependents = [[''a'', ''b'', ''c'']]
     \<and> remainder_chain apps dependents = [])"
proof -
  have p: "parse_clusterapps (map record_line [(''a'', ''N/A''), (''b'', ''a''), (''c'', ''a,b'')])
      = ([(''a'', []), (''b'', [''a'']), (''c'', [''a'', ''b''])],
         [(''a'', [''b'', ''c'']), (''b'', [''c''])])"
    by (simp add: eval_parse)
  show ?thesis
    unfolding p by (simp add: eval_walk)
qed

text \<open>
  C6. The single record \<^verbatim>\<open>("x", "nonexistent-app")\<close>: the parent list of \<^verbatim>\<open>x\<close>
  is \<^verbatim>\<open>["nonexistent-app"]\<close>, no child edge is formed, and there is no root. The
  parser and the root finder have no failing branch: each returns a value on every input.
\<close>

theorem unresolved_reference:
  "(let (apps, dependents) = parse_clusterapps [record_line (''x'', ''nonexistent-app'')]
    in map_of apps ''x'' = Some [''nonexistent-app'']
     \<and> dependents = []
     \<and> children_of dependents ''nonexistent-app'' = []
     \<and> find_roots apps = []
     \<and> emitted_chains apps dependents = []
     \<and> remainder_chain apps dependents = [''x''])"
proof -
  have p: "parse_clusterapps [record_line (''x'', ''nonexistent-app'')]
      = ([(''x'', [''nonexistent-app''])], [])"
    by (simp add: eval_parse)
  show ?thesis
    unfolding p by (simp add: eval_walk)
qed

text \<open>
  C10. The single record \<^verbatim>\<open>("foo-1.2.3", "foo")\<close> makes \<^verbatim>\<open>foo-1.2.3\<close> a member of
  its own children list (the reference equals its base name), and so does the record
  \<^verbatim>\<open>("foo-1.2.3", "foo-1.2.3")\<close> (the reference equals its raw name): the identifier
  is registered before its references are resolved.
\<close>

theorem self_loop:
  "''foo-1.2.3'' \<in> set (children_of
       (snd (parse_clusterapps [record_line (''foo-1.2.3'', ''foo'')])) ''foo-1.2.3'')
   \<and> ''foo-1.2.3'' \<in> set (children_of
       (snd (parse_clusterapps [record_line (''foo-1.2.3'', ''foo-1.2.3'')])) ''foo-1.2.3'')
   \<and> parse_clusterapps [record_line (''foo-1.2.3'', ''foo'')]
       = ([(''foo-1.2.3'', [''foo''])], [(''foo-1.2.3'', [''foo-1.2.3''])])"
  by (simp add: eval_parse children_of_def)

section \<open>The partition into chains, and instances\<close>

text \<open>
  C1. For every graph whose children lists name registered identifiers only, and for every
  graph the parser builds (it is one of those), the chains drawn from the sorted roots
  together with the sorted remainder hold exactly the registered identifiers, and no
  identifier twice.
\<close>

theorem chains_partition:
  "(let drawn = emitted_chains apps dependents;
        rest = remainder_chain apps dependents
    in listed_children dependents \<subseteq> fst ` set apps \<longrightarrow>
         set (concat drawn @ rest) = fst ` set apps \<and> distinct (concat drawn @ rest))
   \<and> (let (apps, dependents) = parse_clusterapps file_lines;
          drawn = emitted_chains apps dependents;
          rest = remainder_chain apps dependents
      in set (concat drawn @ rest) = fst ` set apps \<and> distinct (concat drawn @ rest))"
proof -
  obtain a d where p: "parse_clusterapps file_lines = (a, d)"
    by (cases "parse_clusterapps file_lines")
  have "listed_children d \<subseteq> fst ` set a"
    using parse_children_registered [of file_lines] by (simp add: p)
  then show ?thesis
    using walk_partition [of dependents apps] walk_partition [of d a]
    by (simp add: p Let_def del: set_concat set_append distinct_append)
qed

theorem chains_partition_witness:
  "listed_children [(''a'', [''b'', ''c'']), (''b'', [''c'']), (''x'', [''y''])]
      \<subseteq> fst ` set [(''a'', []), (''b'', [''a'']), (''c'', [''a'', ''b'']), (''x'', [''y'']), (''y'', [''x''])]
   \<and> parse_clusterapps (map record_line
        [(''a'', ''N/A''), (''b'', ''a''), (''c'', ''a,b''), (''x'', ''y''), (''y'', ''x'')])
      = ([(''a'', []), (''b'', [''a'']), (''c'', [''a'', ''b'']), (''x'', [''y'']), (''y'', [''x''])],
         [(''a'', [''b'', ''c'']), (''b'', [''c'']), (''x'', [''y''])])
   \<and> emitted_chains
        [(''a'', []), (''b'', [''a'']), (''c'', [''a'', ''b'']), (''x'', [''y'']), (''y'', [''x''])]
        [(''a'', [''b'', ''c'']), (''b'', [''c'']), (''x'', [''y''])] = [[''a'', ''b'', ''c'']]
   \<and> remainder_chain
        [(''a'', []), (''b'', [''a'']), (''c'', [''a'', ''b'']), (''x'', [''y'']), (''y'', [''x''])]
        [(''a'', [''b'', ''c'']), (''b'', [''c'']), (''x'', [''y''])] = [''x'', ''y'']
   \<and> set (concat (emitted_chains
          [(''a'', []), (''b'', [''a'']), (''c'', [''a'', ''b'']), (''x'', [''y'']), (''y'', [''x''])]
          [(''a'', [''b'', ''c'']), (''b'', [''c'']), (''x'', [''y''])])
        @ remainder_chain
          [(''a'', []), (''b'', [''a'']), (''c'', [''a'', ''b'']), (''x'', [''y'']), (''y'', [''x''])]
          [(''a'', [''b'', ''c'']), (''b'', [''c'']), (''x'', [''y''])])
      = fst ` set [(''a'', []), (''b'', [''a'']), (''c'', [''a'', ''b'']), (''x'', [''y'']), (''y'', [''x''])]"
proof -
  let ?apps = "[(''a'', []), (''b'', [''a'']), (''c'', [''a'', ''b'']), (''x'', [''y'']), (''y'', [''x''])] :: apps"
  let ?deps = "[(''a'', [''b'', ''c'']), (''b'', [''c'']), (''x'', [''y''])] :: dependents"
  have h: "listed_children ?deps \<subseteq> fst ` set ?apps"
    by (simp add: listed_children_def)
  have p: "parse_clusterapps (map record_line
        [(''a'', ''N/A''), (''b'', ''a''), (''c'', ''a,b''), (''x'', ''y''), (''y'', ''x'')])
      = (?apps, ?deps)"
    by (simp add: eval_parse)
  have c: "emitted_chains ?apps ?deps = [[''a'', ''b'', ''c'']]"
    by (simp add: eval_walk)
  have r: "remainder_chain ?apps ?deps = [''x'', ''y'']"
    by (simp add: eval_walk)
  have "set (concat (emitted_chains ?apps ?deps) @ remainder_chain ?apps ?deps) = fst ` set ?apps"
    using chains_partition [of ?apps ?deps] h by (simp only: Let_def)
  then show ?thesis using h p c r by blast
qed

theorem children_characterisation_witness:
  "line_record (map record_line [(''a'', ''N/A''), (''b'', ''a'')] ! 1) = Some (''b'', [''a''])
   \<and> find (matches ''a'') (map fst (fst (parse_clusterapps
        (take (Suc 1) (map record_line [(''a'', ''N/A''), (''b'', ''a'')]))))) = Some ''a''
   \<and> ''b'' \<in> set (children_of
        (snd (parse_clusterapps (map record_line [(''a'', ''N/A''), (''b'', ''a'')]))) ''a'')
   \<and> ''a'' \<in> fst ` set (fst (parse_clusterapps (map record_line [(''a'', ''N/A''), (''b'', ''a'')])))"
proof -
  let ?ls = "map record_line [(''a'', ''N/A''), (''b'', ''a'')]"
  have l: "line_record (?ls ! 1) = Some (''b'', [''a''])"
    by (simp add: line_record_def record_line_def strip_def is_space_def newline_def Let_def)
  have f: "find (matches ''a'') (map fst (fst (parse_clusterapps (take (Suc 1) ?ls)))) = Some ''a''"
    by (simp add: eval_parse)
  have "\<exists>n deps r. n < length ?ls \<and> line_record (?ls ! n) = Some (''b'', deps) \<and> r \<in> set deps
      \<and> find (matches r) (map fst (fst (parse_clusterapps (take (Suc n) ?ls)))) = Some ''a''"
    using l f by (intro exI [of _ 1] exI [of _ "[''a'']"] exI [of _ "''a''"]) simp
  then have "''b'' \<in> set (children_of (snd (parse_clusterapps ?ls)) ''a'')
      \<and> ''a'' \<in> fst ` set (fst (parse_clusterapps ?ls))"
    using children_characterisation [of "''b''" ?ls "''a''"] by blast
  then show ?thesis using l f by blast
qed

text \<open>
  A later record of the same identifier replaces its parent list (line 47) and leaves the
  edges already formed: the final parent list of \<^verbatim>\<open>b\<close> is empty here, and
  \<^verbatim>\<open>b\<close> is still a child of \<^verbatim>\<open>a\<close>.
\<close>

lemma repeated_identifier_keeps_edge:
  "parse_clusterapps [''b|zz'', ''a|N/A'', ''b|a'', ''b|N/A'']
     = ([(''b'', []), (''a'', [])], [(''a'', [''b''])])"
  by (simp add: eval_parse)

text \<open>
  The claim C2 as the specification states it fails on the file \<^verbatim>\<open>b|a\<close>,
  \<^verbatim>\<open>a|N/A\<close>: \<^verbatim>\<open>b\<close> has the reference \<^verbatim>\<open>a\<close> in its parent list,
  \<^verbatim>\<open>a\<close> is registered and matches the reference, and \<^verbatim>\<open>b\<close> is not among the
  children of \<^verbatim>\<open>a\<close>, because \<^verbatim>\<open>a\<close> was registered after \<^verbatim>\<open>b\<close> was read.
\<close>

theorem children_inverse_counterexample:
  "map_of (fst (parse_clusterapps (map record_line [(''b'', ''a''), (''a'', ''N/A'')]))) ''b''
      = Some [''a'']
   \<and> ''a'' \<in> fst ` set (fst (parse_clusterapps (map record_line [(''b'', ''a''), (''a'', ''N/A'')])))
   \<and> matches ''a'' ''a''
   \<and> ''b'' \<notin> set (children_of
        (snd (parse_clusterapps (map record_line [(''b'', ''a''), (''a'', ''N/A'')]))) ''a'')"
  by (simp add: eval_parse children_of_def)

theorem diagram_deterministic_witness:
  "set_order sorted_list_of_set
   \<and> set_order (\<lambda>S. rev (sorted_list_of_set S))
   \<and> generate_diagram_run sorted_list_of_set
        (map record_line [(''a'', ''N/A''), (''c'', ''a''), (''b'', ''a''), (''y'', ''x'')])
      = generate_diagram_run (\<lambda>S. rev (sorted_list_of_set S))
        (map record_line [(''a'', ''N/A''), (''c'', ''a''), (''b'', ''a''), (''y'', ''x'')])
   \<and> parse_clusterapps_run (\<lambda>S. rev (sorted_list_of_set S))
        (map record_line [(''a'', ''N/A''), (''c'', ''a''), (''b'', ''a''), (''y'', ''x'')])
      = ([(''a'', []), (''c'', [''a'']), (''b'', [''a'']), (''y'', [''x''])],
         [(''a'', [''b'', ''c''])])"
proof -
  have "parse_clusterapps_run (\<lambda>S. rev (sorted_list_of_set S))
        (map record_line [(''a'', ''N/A''), (''c'', ''a''), (''b'', ''a''), (''y'', ''x'')])
      = ([(''a'', []), (''c'', [''a'']), (''b'', [''a'']), (''y'', [''x''])],
         [(''a'', [''b'', ''c''])])"
    by (simp add: parse_clusterapps_run_def eval_parse)
  then show ?thesis
    using diagram_deterministic [OF set_order_sorted set_order_rev] set_order_sorted set_order_rev
    by blast
qed

theorem block_shape_witness:
  "length (draw_app_block [(''a'', []), (''b'', [''a''])] [(''a'', [''b''])] ''a'' ! 0) = 50
   \<and> take 7 (drop 3 (draw_app_block [(''a'', []), (''b'', [''a''])] [(''a'', [''b''])] ''a'' ! 1))
       = ustr_of '' [ROOT]''
   \<and> length (draw_app_block [(''a'', []), (''b'', [''a''])] [(''a'', [''b''])] ''a'') = 7
   \<and> length (draw_app_block [(''a'', []), (''b'', [''a''])] [(''a'', [''b''])] ''b'' ! 3) = 50
   \<and> take 7 (drop 3 (draw_app_block [(''a'', []), (''b'', [''a''])] [(''a'', [''b''])] ''b'' ! 4))
       \<noteq> ustr_of '' [ROOT]''
   \<and> length (draw_app_block [(''a'', []), (''b'', [''a''])] [(''a'', [''b''])] ''b'') = 7
   \<and> draw_app_block [(''a'', []), (''b'', [''a''])] [(''a'', [''b''])] ''b'' ! 6
       = ustr_of ''    '' @ [box_ur, box_h] @ ustr_of '' (no dependents)''"
proof -
  let ?apps = "[(''a'', []), (''b'', [''a''])] :: apps"
  let ?deps = "[(''a'', [''b''])] :: dependents"
  have pa: "(case map_of ?apps ''a'' of None \<Rightarrow> [] | Some ds \<Rightarrow> ds) = []"
    and pb: "(case map_of ?apps ''b'' of None \<Rightarrow> [] | Some ds \<Rightarrow> ds) = [''a'']"
    and ca: "children_of ?deps ''a'' = [''b'']"
    and cb: "children_of ?deps ''b'' = []"
    and na: "2 + length (take 60 ''a'') = 3"
    and nb: "2 + length (take 60 ''b'') = 3"
    and w: "max 50 (length (take 60 ''a'') + 4) = 50" "max 50 (length (take 60 ''b'') + 4) = 50"
    by (simp_all add: children_of_def)
  note a = block_shape [of ?apps "''a''" ?deps, unfolded Let_def pa ca na w]
  note b = block_shape [of ?apps "''b''" ?deps, unfolded Let_def pb cb nb w]
  have "length (draw_app_block ?apps ?deps ''a'' ! 0) = 50"
    and "length (draw_app_block ?apps ?deps ''a'') = 7"
    and "take 7 (drop 3 (draw_app_block ?apps ?deps ''a'' ! 1)) = ustr_of '' [ROOT]''"
    using a by simp_all
  moreover have "length (draw_app_block ?apps ?deps ''b'' ! 3) = 50"
    and "length (draw_app_block ?apps ?deps ''b'') = 7"
    and "draw_app_block ?apps ?deps ''b'' ! 6
       = ustr_of ''    '' @ [box_ur, box_h] @ ustr_of '' (no dependents)''"
    and "take 7 (drop 3 (draw_app_block ?apps ?deps ''b'' ! 4)) \<noteq> ustr_of '' [ROOT]''"
    using b by simp_all
  ultimately show ?thesis by blast
qed

end
